theory Spec2Isabelle
  imports Main
begin

section \<open>Errors and Python containers\<close>

text \<open>
  The exceptions the engine can raise. \<open>ValueError\<close> carries the rejected action and the
  player index that the source formats into its message.
\<close>

datatype error = IndexError | UnboundLocalError | ValueError "int \<times> int" int

text \<open>
  Reading and writing a sequence by an integer index, as Python lists and numpy arrays do:
  an index below zero counts from the end, anything outside raises \<open>IndexError\<close>.
\<close>

definition norm_index :: "'a list \<Rightarrow> int \<Rightarrow> int" where
  "norm_index xs i = (if i < 0 then i + int (length xs) else i)"

definition getitem :: "'a list \<Rightarrow> int \<Rightarrow> error + 'a" where
  "getitem xs i =
     (if 0 \<le> norm_index xs i \<and> norm_index xs i < int (length xs)
      then Inr (xs ! nat (norm_index xs i)) else Inl IndexError)"

definition setitem :: "'a list \<Rightarrow> int \<Rightarrow> 'a \<Rightarrow> error + 'a list" where
  "setitem xs i v =
     (if 0 \<le> norm_index xs i \<and> norm_index xs i < int (length xs)
      then Inr (xs[nat (norm_index xs i) := v]) else Inl IndexError)"

definition index_ok :: "'a list \<Rightarrow> int \<Rightarrow> bool" where
  "index_ok xs i = (0 \<le> norm_index xs i \<and> norm_index xs i < int (length xs))"

text \<open>The slice \<open>xs[i:j]\<close> (step 1): both bounds are normalised and clamped.\<close>

definition clamp_index :: "'a list \<Rightarrow> int \<Rightarrow> nat" where
  "clamp_index xs i = nat (min (max (norm_index xs i) 0) (int (length xs)))"

definition slice :: "'a list \<Rightarrow> int \<Rightarrow> int \<Rightarrow> 'a list" where
  "slice xs i j = take (clamp_index xs j - clamp_index xs i) (drop (clamp_index xs i) xs)"

section \<open>BoardState\<close>

definition N_ROWS :: int where
  "N_ROWS = 8"

definition N_COLS :: int where
  "N_COLS = 7"

text \<open>
  \<open>state\<close> is the array of the 12 encoded positions, \<open>decode_state\<close> the list of their
  coordinates \<open>(col, row)\<close>, kept beside it. Array entries are modelled as unbounded
  integers.
\<close>

record BoardState =
  state :: "int list"
  decode_state :: "(int \<times> int) list"

fun encode_single_pos :: "int \<times> int \<Rightarrow> int" where
  "encode_single_pos (col, row) = row * N_COLS + col"

definition decode_single_pos :: "int \<Rightarrow> int \<times> int" where
  "decode_single_pos n = (let row = n div N_COLS; col = n mod N_COLS in (col, row))"

definition make_state :: "BoardState \<Rightarrow> (int \<times> int) list" where
  "make_state g = map decode_single_pos (state g)"

definition BoardState_init :: BoardState where
  "BoardState_init =
     \<lparr>state = [1, 2, 3, 4, 5, 3, 50, 51, 52, 53, 54, 52],
      decode_state = map decode_single_pos [1, 2, 3, 4, 5, 3, 50, 51, 52, 53, 54, 52]\<rparr>"

text \<open>\<open>BoardState.update\<close>: writes the array entry, then the coordinate decoded from it.\<close>

definition BoardState_update :: "BoardState \<Rightarrow> int \<Rightarrow> int \<Rightarrow> error + BoardState" where
  "BoardState_update g idx val =
     (case setitem (state g) idx val of
        Inl e \<Rightarrow> Inl e
      | Inr st \<Rightarrow>
          (case getitem st idx of
             Inl e \<Rightarrow> Inl e
           | Inr n \<Rightarrow>
               (case setitem (decode_state g) idx (decode_single_pos n) of
                  Inl e \<Rightarrow> Inl e
                | Inr ds \<Rightarrow> Inr \<lparr>state = st, decode_state = ds\<rparr>)))"

definition is_termination_state :: "BoardState \<Rightarrow> error + bool" where
  "is_termination_state g =
     (case getitem (state g) 5 of
        Inl e \<Rightarrow> Inl e
      | Inr white_ball_pos \<Rightarrow>
          (case getitem (state g) 11 of
             Inl e \<Rightarrow> Inl e
           | Inr black_ball_pos \<Rightarrow>
               (let white_ball_coord = decode_single_pos white_ball_pos;
                    black_ball_coord = decode_single_pos black_ball_pos
                in if snd white_ball_coord = 7 then Inr True
                   else if snd black_ball_coord = 0 then Inr True
                   else Inr False)))"

definition is_valid :: "BoardState \<Rightarrow> bool" where
  "is_valid g =
     (if \<not> list_all (\<lambda>pos. 0 \<le> pos \<and> pos \<le> 55) (state g) then False
      else if card (set (state g)) \<noteq> length (state g) then False
      else True)"

section \<open>Rules\<close>

text \<open>
  \<open>Rules.single_piece_actions\<close>: the eight knight offsets of the cached coordinate of
  the piece, in the order of the source; the loop keeps a move that is on the board and
  whose encoding is not in the position array.
\<close>

definition possible_moves :: "int \<Rightarrow> int \<Rightarrow> (int \<times> int) list" where
  "possible_moves col row =
     [(col + 2, row + 1), (col + 2, row - 1),
      (col - 2, row + 1), (col - 2, row - 1),
      (col + 1, row + 2), (col + 1, row - 2),
      (col - 1, row + 2), (col - 1, row - 2)]"

fun piece_loop :: "BoardState \<Rightarrow> (int \<times> int) list \<Rightarrow> int set \<Rightarrow> int set" where
  "piece_loop g [] valid_moves = valid_moves"
| "piece_loop g (move # rest) valid_moves =
     (case move of (move_col, move_row) \<Rightarrow>
        if 0 \<le> move_col \<and> move_col < N_COLS \<and> 0 \<le> move_row \<and> move_row < N_ROWS then
          (let encoded_pos = encode_single_pos move
           in if encoded_pos \<notin> set (state g)
              then piece_loop g rest (insert encoded_pos valid_moves)
              else piece_loop g rest valid_moves)
        else piece_loop g rest valid_moves)"

definition single_piece_actions :: "BoardState \<Rightarrow> int \<Rightarrow> error + int set" where
  "single_piece_actions g piece_idx =
     (case getitem (decode_state g) piece_idx of
        Inl e \<Rightarrow> Inl e
      | Inr (col, row) \<Rightarrow> Inr (piece_loop g (possible_moves col row) {}))"

text \<open>
  \<open>Rules.single_ball_actions\<close>. The inner \<open>while\<close> loop walks one ray; its result is
  \<open>None\<close> when the loop does not end. The \<open>break\<close> leaves the loop with the moves
  collected so far.
\<close>

definition directions :: "(int \<times> int) list" where
  "directions = [(1, 0), (-1, 0), (0, 1), (0, -1), (1, 1), (1, -1), (-1, 1), (-1, -1)]"

partial_function (option) ray_loop ::
  "BoardState \<Rightarrow> int \<Rightarrow> int \<Rightarrow> int \<Rightarrow> int \<Rightarrow> int \<Rightarrow> int set \<Rightarrow> int set option" where
  "ray_loop g player_idx dcol drow cur_col cur_row valid_moves =
     (if 0 \<le> cur_col \<and> cur_col < N_COLS \<and> 0 \<le> cur_row \<and> cur_row < N_ROWS then
        (let encoded_pos = encode_single_pos (cur_col, cur_row)
         in if encoded_pos \<in> set (state g) then Some valid_moves
            else ray_loop g player_idx dcol drow (cur_col + dcol) (cur_row + drow)
                   (if encoded_pos \<in> set (slice (state g) (player_idx * 6) ((player_idx + 1) * 6))
                    then insert encoded_pos valid_moves else valid_moves))
      else Some valid_moves)"

declare ray_loop.simps [code]

fun direction_loop ::
  "BoardState \<Rightarrow> int \<Rightarrow> int \<Rightarrow> int \<Rightarrow> (int \<times> int) list \<Rightarrow> int set \<Rightarrow> int set option" where
  "direction_loop g player_idx col row [] valid_moves = Some valid_moves"
| "direction_loop g player_idx col row (direction # rest) valid_moves =
     (case direction of (dcol, drow) \<Rightarrow>
        (case ray_loop g player_idx dcol drow (col + dcol) (row + drow) valid_moves of
           None \<Rightarrow> None
         | Some valid_moves' \<Rightarrow> direction_loop g player_idx col row rest valid_moves'))"

definition single_ball_actions :: "BoardState \<Rightarrow> int \<Rightarrow> (error + int set) option" where
  "single_ball_actions g player_idx =
     (let ball_idx = (if player_idx = 0 then 5 else 11)
      in case getitem (decode_state g) ball_idx of
           Inl e \<Rightarrow> Some (Inl e)
         | Inr (col, row) \<Rightarrow>
             map_option Inr (direction_loop g player_idx col row directions {}))"

section \<open>GameSimulator\<close>

text \<open>
  A policy maps the decoded board to an action \<open>(relative_idx, encoded position)\<close> and a
  value of any type. \<open>players\<close> is the sequence of the two policies.
\<close>

type_synonym 'v policy = "(int \<times> int) list \<Rightarrow> (int \<times> int) \<times> 'v"

record 'v GameSimulator =
  game_state :: BoardState
  current_round :: int
  players :: "'v policy list"

definition GameSimulator_init :: "'v policy list \<Rightarrow> 'v GameSimulator" where
  "GameSimulator_init ps = \<lparr>game_state = BoardState_init, current_round = - 1, players = ps\<rparr>"

fun block_loop ::
  "BoardState \<Rightarrow> int \<Rightarrow> int list \<Rightarrow> (int \<times> int) set \<Rightarrow> error + (int \<times> int) set" where
  "block_loop g offset_idx [] valid_actions = Inr valid_actions"
| "block_loop g offset_idx (i # rest) valid_actions =
     (let piece_idx = offset_idx + i
      in case single_piece_actions g piece_idx of
           Inl e \<Rightarrow> Inl e
         | Inr piece_actions \<Rightarrow>
             block_loop g offset_idx rest (valid_actions \<union> Pair i ` piece_actions))"

definition generate_valid_actions :: "BoardState \<Rightarrow> int \<Rightarrow> (error + (int \<times> int) set) option" where
  "generate_valid_actions g player_idx =
     (let offset_idx = player_idx * 6
      in case block_loop g offset_idx [0, 1, 2, 3, 4] {} of
           Inl e \<Rightarrow> Some (Inl e)
         | Inr valid_actions \<Rightarrow>
             (case single_ball_actions g player_idx of
                None \<Rightarrow> None
              | Some (Inl e) \<Rightarrow> Some (Inl e)
              | Some (Inr ball_actions) \<Rightarrow> Some (Inr (valid_actions \<union> Pair 5 ` ball_actions))))"

definition validate_action :: "BoardState \<Rightarrow> int \<times> int \<Rightarrow> int \<Rightarrow> (error + bool) option" where
  "validate_action g action player_idx =
     (case generate_valid_actions g player_idx of
        None \<Rightarrow> None
      | Some (Inl e) \<Rightarrow> Some (Inl e)
      | Some (Inr valid_actions) \<Rightarrow>
          if action \<notin> valid_actions then Some (Inl (ValueError action player_idx))
          else Some (Inr True))"

definition GameSimulator_update ::
  "'v GameSimulator \<Rightarrow> int \<times> int \<Rightarrow> int \<Rightarrow> error + 'v GameSimulator" where
  "GameSimulator_update sim action player_idx =
     (let offset_idx = player_idx * 6
      in case action of (idx, pos) \<Rightarrow>
           (case BoardState_update (game_state sim) (offset_idx + idx) pos of
              Inl e \<Rightarrow> Inl e
            | Inr g \<Rightarrow> Inr (sim\<lparr>game_state := g\<rparr>)))"

text \<open>
  \<open>GameSimulator.run\<close>. Each round prints one line: the round, the player, the position
  array, the action and the value; the lines printed so far are the last component of
  the result. A run ends by returning its triple or by raising; \<open>Unfinished\<close> is a run
  that is still in its loop after the given number of rounds (or inside a ray loop that
  does not end). The local variable \<open>player_idx\<close> is unbound until the first round.
\<close>

datatype outcome = Returned "int \<times> string \<times> string" | Raised error | Unfinished

type_synonym 'v line = "int \<times> int \<times> int list \<times> (int \<times> int) \<times> 'v"

datatype 'v turn = Stop outcome "'v line list" | Next "'v GameSimulator" int "'v line list"

definition run_body :: "'v GameSimulator \<Rightarrow> 'v line list \<Rightarrow> 'v turn" where
  "run_body sim0 out =
     (let sim = sim0\<lparr>current_round := current_round sim0 + 1\<rparr>;
          player_idx = current_round sim mod 2
      in case getitem (players sim) player_idx of
           Inl e \<Rightarrow> Stop (Raised e) out
         | Inr p \<Rightarrow>
             (case p (make_state (game_state sim)) of (action, val) \<Rightarrow>
                (let out' = out @ [(current_round sim, player_idx, state (game_state sim), action, val)]
                 in case validate_action (game_state sim) action player_idx of
                      None \<Rightarrow> Stop Unfinished out'
                    | Some (Inl e) \<Rightarrow> Stop (Raised e) out'
                    | Some (Inr ok) \<Rightarrow>
                        if \<not> ok then
                          (if player_idx = 0
                           then Stop (Returned (current_round sim, ''BLACK'',
                                  ''White provided an invalid action'')) out'
                           else Stop (Returned (current_round sim, ''WHITE'',
                                  ''Black probided an invalid action'')) out')
                        else
                          (case GameSimulator_update sim action player_idx of
                             Inl e \<Rightarrow> Stop (Raised e) out'
                           | Inr sim' \<Rightarrow> Next sim' player_idx out'))))"

fun run_loop ::
  "nat \<Rightarrow> 'v GameSimulator \<Rightarrow> int option \<Rightarrow> 'v line list \<Rightarrow> outcome \<times> 'v line list" where
  "run_loop n sim player_idx out =
     (case is_termination_state (game_state sim) of
        Inl e \<Rightarrow> (Raised e, out)
      | Inr True \<Rightarrow>
          (case player_idx of
             None \<Rightarrow> (Raised UnboundLocalError, out)
           | Some p \<Rightarrow>
               if p = 0 then (Returned (current_round sim, ''WHITE'', ''No issues''), out)
               else (Returned (current_round sim, ''BLACK'', ''No issues''), out))
      | Inr False \<Rightarrow>
          (case n of
             0 \<Rightarrow> (Unfinished, out)
           | Suc m \<Rightarrow>
               (case run_body sim out of
                  Stop res out' \<Rightarrow> (res, out')
                | Next sim' p out' \<Rightarrow> run_loop m sim' (Some p) out')))"

declare run_loop.simps [simp del]

definition run :: "nat \<Rightarrow> 'v GameSimulator \<Rightarrow> outcome \<times> 'v line list" where
  "run n sim = run_loop n sim None []"

text \<open>The fields of a printed line.\<close>

definition line_round :: "'v line \<Rightarrow> int" where
  "line_round l = fst l"

definition line_player :: "'v line \<Rightarrow> int" where
  "line_player l = fst (snd l)"

definition line_state :: "'v line \<Rightarrow> int list" where
  "line_state l = fst (snd (snd l))"

definition line_reply :: "'v line \<Rightarrow> (int \<times> int) \<times> 'v" where
  "line_reply l = snd (snd (snd l))"

text \<open>The line that a round prints when the policy \<open>q\<close> is asked on the board of \<open>sim\<close>.\<close>

definition the_line :: "'v GameSimulator \<Rightarrow> 'v policy \<Rightarrow> 'v line" where
  "the_line sim q =
     (current_round sim + 1, (current_round sim + 1) mod 2, state (game_state sim),
      q (make_state (game_state sim)))"

text \<open>The color of a player: player 0 is white, the other player is black.\<close>

definition color_of :: "int \<Rightarrow> string" where
  "color_of p = (if p = 0 then ''WHITE'' else ''BLACK'')"

text \<open>
  A list of policies replies to a printed line when the policy of the line's player,
  asked on the decoded board of the line, returns the action and the value of the line.
\<close>

definition replies :: "'v policy list \<Rightarrow> 'v line \<Rightarrow> bool" where
  "replies ps l =
     (case getitem ps (line_player l) of
        Inl e \<Rightarrow> False
      | Inr q \<Rightarrow> q (map decode_single_pos (line_state l)) = line_reply l)"

text \<open>
  A sequence of engine updates: each pair is a moving player and an action; the action is
  looked up in \<open>generate_valid_actions\<close> for that player, rejected as \<open>validate_action\<close>
  rejects it when it is not there, and applied by \<open>GameSimulator.update\<close> otherwise.
\<close>

fun engine_updates ::
  "'v GameSimulator \<Rightarrow> (int \<times> (int \<times> int)) list \<Rightarrow> (error + 'v GameSimulator) option" where
  "engine_updates sim [] = Some (Inr sim)"
| "engine_updates sim ((player_idx, action) # rest) =
     (case generate_valid_actions (game_state sim) player_idx of
        None \<Rightarrow> None
      | Some (Inl e) \<Rightarrow> Some (Inl e)
      | Some (Inr valid_actions) \<Rightarrow>
          if action \<notin> valid_actions then Some (Inl (ValueError action player_idx))
          else
            (case GameSimulator_update sim action player_idx of
               Inl e \<Rightarrow> Some (Inl e)
             | Inr sim' \<Rightarrow> engine_updates sim' rest))"

section \<open>The rules as the specification words them\<close>

text \<open>
  A coordinate is on the board when its column is in \<open>[0, 6]\<close> and its row in \<open>[0, 7]\<close>.
\<close>

definition on_board :: "int \<times> int \<Rightarrow> bool" where
  "on_board cr = (0 \<le> fst cr \<and> fst cr < N_COLS \<and> 0 \<le> snd cr \<and> snd cr < N_ROWS)"

text \<open>
  The runner rule of the specification: the knight offsets are the eight pairs with one
  component of size 1 and the other of size 2; a destination is a knight offset away, on
  the board and not occupied.
\<close>

definition knight_offsets :: "(int \<times> int) set" where
  "knight_offsets = {(dc, dr). (\<bar>dc\<bar> = 1 \<and> \<bar>dr\<bar> = 2) \<or> (\<bar>dc\<bar> = 2 \<and> \<bar>dr\<bar> = 1)}"

definition runner_moves_spec :: "BoardState \<Rightarrow> int \<times> int \<Rightarrow> int set" where
  "runner_moves_spec g cr =
     {encode_single_pos (fst cr + dc, snd cr + dr) | dc dr.
        (dc, dr) \<in> knight_offsets
        \<and> 0 \<le> fst cr + dc \<and> fst cr + dc \<le> 6 \<and> 0 \<le> snd cr + dr \<and> snd cr + dr \<le> 7
        \<and> encode_single_pos (fst cr + dc, snd cr + dr) \<notin> set (state g)}"

text \<open>
  The carrier rule of the specification: a destination is a square \<open>k \<ge> 1\<close> steps away in
  one of the eight queen directions, on the board, with no square of the position array
  among the \<open>k - 1\<close> squares before it, and holding one of the five runners of the player.
\<close>

definition own_runners :: "BoardState \<Rightarrow> int \<Rightarrow> int list" where
  "own_runners g player_idx = take 5 (drop (nat (player_idx * 6)) (state g))"

definition carrier_moves_spec :: "BoardState \<Rightarrow> int \<Rightarrow> int set" where
  "carrier_moves_spec g player_idx =
     (case decode_single_pos (state g ! (if player_idx = 0 then 5 else 11)) of (col, row) \<Rightarrow>
        set [encode_single_pos (col + k * dc, row + k * dr).
               (dc, dr) \<leftarrow> directions, k \<leftarrow> [1..7],
               on_board (col + k * dc, row + k * dr),
               list_all (\<lambda>j. encode_single_pos (col + j * dc, row + j * dr) \<notin> set (state g))
                 [1..k - 1],
               encode_single_pos (col + k * dc, row + k * dr) \<in> set (own_runners g player_idx)])"

section \<open>The position codec\<close>

lemma encode_decode: "encode_single_pos (decode_single_pos n) = n"
  by (simp add: decode_single_pos_def N_COLS_def)

lemma decode_encode:
  assumes "0 \<le> col" "col \<le> 6"
  shows "decode_single_pos (encode_single_pos (col, row)) = (col, row)"
  using assms by (simp add: decode_single_pos_def N_COLS_def)

lemma decode_on_board:
  assumes "0 \<le> n" "n \<le> 55"
  shows "on_board (decode_single_pos n)"
  using assms by (auto simp: on_board_def decode_single_pos_def N_COLS_def N_ROWS_def)

lemma encode_range:
  assumes "on_board cr"
  shows "0 \<le> encode_single_pos cr \<and> encode_single_pos cr \<le> 55"
  using assms by (cases cr) (auto simp: on_board_def N_COLS_def N_ROWS_def)

text \<open>
  C4: \<open>encode_single_pos\<close> and \<open>decode_single_pos\<close> are inverse to each other between the
  square indices \<open>0..55\<close> and the coordinates with column in \<open>0..6\<close> and row in \<open>0..7\<close>:
  decoding an index gives a coordinate of the board that encodes back to the index, and
  encoding a coordinate of the board gives an index in \<open>0..55\<close> that decodes back to it.
\<close>

theorem codec_inverse:
  "(0 \<le> n \<and> n \<le> 55 \<longrightarrow>
      on_board (decode_single_pos n) \<and> encode_single_pos (decode_single_pos n) = n) \<and>
   (0 \<le> col \<and> col \<le> 6 \<and> 0 \<le> row \<and> row \<le> 7 \<longrightarrow>
      0 \<le> encode_single_pos (col, row) \<and> encode_single_pos (col, row) \<le> 55 \<and>
      decode_single_pos (encode_single_pos (col, row)) = (col, row))"
proof (intro conjI impI)
  assume "0 \<le> n \<and> n \<le> 55"
  then show "on_board (decode_single_pos n)"
    by (simp add: decode_on_board)
next
  show "encode_single_pos (decode_single_pos n) = n"
    by (rule encode_decode)
next
  assume b: "0 \<le> col \<and> col \<le> 6 \<and> 0 \<le> row \<and> row \<le> 7"
  then have "on_board (col, row)"
    by (simp add: on_board_def N_COLS_def N_ROWS_def)
  then show "0 \<le> encode_single_pos (col, row)" "encode_single_pos (col, row) \<le> 55"
    using encode_range by blast+
  from b have "0 \<le> col" "col \<le> 6"
    by simp_all
  then show "decode_single_pos (encode_single_pos (col, row)) = (col, row)"
    by (rule decode_encode)
qed

theorem codec_inverse_witness:
  "(0::int) \<le> 17 \<and> (17::int) \<le> 55 \<and> decode_single_pos 17 = (3, 2) \<and>
   encode_single_pos (decode_single_pos 17) = 17 \<and>
   (0::int) \<le> 3 \<and> (3::int) \<le> 6 \<and> (0::int) \<le> 2 \<and> (2::int) \<le> 7 \<and>
   encode_single_pos (3, 2) = 17 \<and> decode_single_pos (encode_single_pos (3, 2)) = (3, 2)"
  using codec_inverse [of 17 3 2] by (simp add: decode_single_pos_def N_COLS_def)

section \<open>The initial layout and the predicates of BoardState\<close>

text \<open>
  C7: a fresh \<open>BoardState\<close> holds the positions \<open>[1,2,3,4,5,3,50,51,52,53,54,52]\<close> and
  \<open>is_valid\<close> is false on it: every entry is in \<open>0..55\<close>, but the entries are not distinct,
  3 standing at the indices 2 and 5 and 52 at the indices 8 and 11.
\<close>

theorem initial_layout_invalid:
  "state BoardState_init = [1, 2, 3, 4, 5, 3, 50, 51, 52, 53, 54, 52] \<and>
   decode_state BoardState_init = make_state BoardState_init \<and>
   is_valid BoardState_init = False \<and>
   list_all (\<lambda>pos. 0 \<le> pos \<and> pos \<le> 55) (state BoardState_init) \<and>
   card (set (state BoardState_init)) = 10 \<and>
   state BoardState_init ! 2 = 3 \<and> state BoardState_init ! 5 = 3 \<and>
   state BoardState_init ! 8 = 52 \<and> state BoardState_init ! 11 = 52"
proof -
  have c: "card (set (state BoardState_init)) = 10"
    by (simp add: BoardState_init_def card_insert_if)
  then have "is_valid BoardState_init = False"
    by (simp add: is_valid_def BoardState_init_def)
  with c show ?thesis
    by (simp add: BoardState_init_def make_state_def)
qed

theorem initial_layout_invalid_witness:
  "\<not> is_valid BoardState_init \<and> length (state BoardState_init) = 12"
  using initial_layout_invalid by simp

lemma getitem_nonneg:
  assumes "0 \<le> i" "i < int (length xs)"
  shows "getitem xs i = Inr (xs ! nat i)"
  using assms by (simp add: getitem_def norm_index_def)

text \<open>
  C8: on a board of 12 positions \<open>is_termination_state\<close> returns true exactly when the
  decoded row of the entry 5 is 7 or the decoded row of the entry 11 is 0.
\<close>

theorem is_termination_state_iff:
  assumes "length (state g) = 12"
  shows "is_termination_state g =
           Inr (snd (decode_single_pos (state g ! 5)) = 7 \<or>
                snd (decode_single_pos (state g ! 11)) = 0)"
proof -
  have "getitem (state g) 5 = Inr (state g ! 5)" "getitem (state g) 11 = Inr (state g ! 11)"
    using assms getitem_nonneg [of 5 "state g"] getitem_nonneg [of 11 "state g"] by simp_all
  then show ?thesis
    by (simp add: is_termination_state_def Let_def)
qed

theorem is_termination_state_iff_witness:
  "length (state \<lparr>state = [1, 2, 3, 4, 5, 52, 50, 51, 30, 53, 54, 31], decode_state = []\<rparr>) = 12 \<and>
   is_termination_state \<lparr>state = [1, 2, 3, 4, 5, 52, 50, 51, 30, 53, 54, 31], decode_state = []\<rparr>
     = Inr True"
  using is_termination_state_iff
          [of "\<lparr>state = [1, 2, 3, 4, 5, 52, 50, 51, 30, 53, 54, 31], decode_state = []\<rparr>"]
  by (simp add: decode_single_pos_def N_COLS_def)

section \<open>Runner moves\<close>

lemma piece_loop_step:
  "piece_loop g (m # ms) vm =
     piece_loop g ms (if on_board m \<and> encode_single_pos m \<notin> set (state g)
                      then insert (encode_single_pos m) vm else vm)"
  by (cases m) (simp add: on_board_def Let_def del: encode_single_pos.simps)

lemma piece_loop_set:
  "piece_loop g ms vm =
     vm \<union> encode_single_pos ` {m \<in> set ms. on_board m \<and> encode_single_pos m \<notin> set (state g)}"
proof (induction ms arbitrary: vm)
  case Nil
  show ?case by simp
next
  case (Cons m ms)
  show ?case
    unfolding piece_loop_step Cons.IH
    by (auto simp del: encode_single_pos.simps)
qed

lemma abs_int_cases:
  "\<bar>x :: int\<bar> = 1 \<longleftrightarrow> x = 1 \<or> x = - 1"
  "\<bar>x :: int\<bar> = 2 \<longleftrightarrow> x = 2 \<or> x = - 2"
  by (simp_all add: abs_if) presburger+

lemma knight_offsets_enum:
  "knight_offsets = {(2, 1), (2, -1), (-2, 1), (-2, -1), (1, 2), (1, -2), (-1, 2), (-1, -2)}"
  unfolding knight_offsets_def abs_int_cases by (rule set_eqI) (simp, blast)

lemma knight_offsets_moves:
  "set (possible_moves col row) = (\<lambda>(dc, dr). (col + dc, row + dr)) ` knight_offsets"
  unfolding knight_offsets_enum possible_moves_def by simp

lemma piece_loop_spec:
  "piece_loop g (possible_moves col row) {} = runner_moves_spec g (col, row)"
proof (rule set_eqI)
  fix x
  have "x \<in> piece_loop g (possible_moves col row) {} \<longleftrightarrow>
        (\<exists>dc dr. (dc, dr) \<in> knight_offsets \<and> x = encode_single_pos (col + dc, row + dr)
              \<and> on_board (col + dc, row + dr)
              \<and> encode_single_pos (col + dc, row + dr) \<notin> set (state g))"
    unfolding piece_loop_set knight_offsets_moves
    by (auto simp del: encode_single_pos.simps)
  also have "\<dots> \<longleftrightarrow> x \<in> runner_moves_spec g (col, row)"
    unfolding runner_moves_spec_def on_board_def N_COLS_def N_ROWS_def
    by (simp del: encode_single_pos.simps) (smt (verit, best))
  finally show "x \<in> piece_loop g (possible_moves col row) {} \<longleftrightarrow>
                x \<in> runner_moves_spec g (col, row)" .
qed

lemma runner_moves_spec_free: "runner_moves_spec g cr \<inter> set (state g) = {}"
  unfolding runner_moves_spec_def by blast

text \<open>
  C5: on a board of 12 positions whose coordinate list mirrors the position array, and
  for a piece index in \<open>0..11\<close>, \<open>single_piece_actions\<close> returns exactly the encodings of
  the knight offsets of the piece's coordinate that are on the board and not occupied;
  so the returned set and the occupied squares are disjoint.
\<close>

theorem single_piece_actions_spec:
  assumes "length (state g) = 12" and "decode_state g = make_state g"
    and "0 \<le> piece_idx" and "piece_idx < 12"
  shows "single_piece_actions g piece_idx =
           Inr (runner_moves_spec g (decode_single_pos (state g ! nat piece_idx))) \<and>
         runner_moves_spec g (decode_single_pos (state g ! nat piece_idx)) \<inter> set (state g) = {}"
proof -
  have "getitem (decode_state g) piece_idx = Inr (decode_state g ! nat piece_idx)"
    using assms by (intro getitem_nonneg) (simp_all add: make_state_def)
  moreover have "decode_state g ! nat piece_idx = decode_single_pos (state g ! nat piece_idx)"
    using assms by (simp add: make_state_def)
  ultimately have "single_piece_actions g piece_idx =
      Inr (runner_moves_spec g (decode_single_pos (state g ! nat piece_idx)))"
    by (cases "decode_single_pos (state g ! nat piece_idx)")
       (simp add: single_piece_actions_def piece_loop_spec)
  then show ?thesis
    using runner_moves_spec_free by simp
qed

lemma single_piece_actions_init: "single_piece_actions BoardState_init 0 = Inr {10, 14, 16}"
  by code_simp

theorem single_piece_actions_spec_witness:
  "length (state BoardState_init) = 12 \<and> decode_state BoardState_init = make_state BoardState_init \<and>
   runner_moves_spec BoardState_init (decode_single_pos (state BoardState_init ! nat 0)) = {10, 14, 16} \<and>
   {10, 14, 16} \<inter> set (state BoardState_init) = {}"
  using single_piece_actions_spec [of BoardState_init 0] single_piece_actions_init
  by (simp add: BoardState_init_def make_state_def)

section \<open>Carrier moves\<close>

lemma slice_subset: "set (slice xs i j) \<subseteq> set xs"
  unfolding slice_def by (meson set_take_subset set_drop_subset subset_trans)

text \<open>
  A ray in a direction other than \<open>(0, 0)\<close> ends and leaves the collected moves as they
  were: a square of the position array ends the ray before the membership test, and a
  square outside the array fails the test. The measure is the distance to the edge the
  ray runs to.
\<close>

lemma ray_loop_returns:
  assumes "dcol \<noteq> 0 \<or> drow \<noteq> 0"
  shows "ray_loop g p dcol drow c r vm = Some vm"
  using assms
proof (induction "nat (if dcol > 0 then 7 - c else if dcol < 0 then c + 1
                       else if drow > 0 then 8 - r else r + 1)"
       arbitrary: c r rule: less_induct)
  case less
  show ?case
  proof (cases "0 \<le> c \<and> c < N_COLS \<and> 0 \<le> r \<and> r < N_ROWS")
    case False
    then show ?thesis by (subst ray_loop.simps) auto
  next
    case inb: True
    show ?thesis
    proof (cases "encode_single_pos (c, r) \<in> set (state g)")
      case True
      then show ?thesis using inb by (subst ray_loop.simps) simp
    next
      case False
      then have ns: "encode_single_pos (c, r) \<notin> set (slice (state g) (p * 6) ((p + 1) * 6))"
        using slice_subset [of "state g" "p * 6" "(p + 1) * 6"] by auto
      have "ray_loop g p dcol drow (c + dcol) (r + drow) vm = Some vm"
        using inb less.prems by (intro less.hyps) (auto simp: N_COLS_def N_ROWS_def)
      then show ?thesis using inb False ns by (subst ray_loop.simps) simp
    qed
  qed
qed

lemma direction_loop_returns:
  assumes "\<forall>d \<in> set ds. d \<noteq> (0, 0)"
  shows "direction_loop g p col row ds vm = Some vm"
  using assms
proof (induction ds)
  case Nil
  show ?case by simp
next
  case (Cons d ds)
  obtain dc dr where d: "d = (dc, dr)" by (cases d)
  with Cons.prems have "dc \<noteq> 0 \<or> dr \<noteq> 0" by auto
  then have "ray_loop g p dc dr (col + dc) (row + dr) vm = Some vm"
    by (rule ray_loop_returns)
  with Cons d show ?case by simp
qed

lemma directions_nonzero: "\<forall>d \<in> set directions. d \<noteq> (0, 0)"
  by (simp add: directions_def)

lemma single_ball_actions_cases:
  "single_ball_actions g player_idx = Some (Inr {}) \<or>
   single_ball_actions g player_idx = Some (Inl IndexError)"
  by (auto simp: single_ball_actions_def getitem_def
        direction_loop_returns [OF directions_nonzero] split: sum.splits prod.splits)

lemma single_ball_actions_returns:
  assumes "length (decode_state g) = 12"
  shows "single_ball_actions g player_idx = Some (Inr {})"
  using assms
  by (auto simp: single_ball_actions_def getitem_def norm_index_def
        direction_loop_returns [OF directions_nonzero] split: sum.splits prod.splits)

text \<open>
  C3: on every board whose coordinate list has its 12 entries, and for every player index,
  \<open>single_ball_actions\<close> returns, and what it returns is the empty set.
\<close>

theorem single_ball_actions_empty:
  assumes "length (decode_state g) = 12"
  shows "single_ball_actions g player_idx = Some (Inr {})"
  using assms by (rule single_ball_actions_returns)

theorem single_ball_actions_empty_witness:
  "length (decode_state BoardState_init) = 12 \<and>
   single_ball_actions BoardState_init 0 = Some (Inr {}) \<and>
   single_ball_actions BoardState_init 1 = Some (Inr {})"
  using single_ball_actions_empty [of BoardState_init 0]
        single_ball_actions_empty [of BoardState_init 1]
  by (simp add: BoardState_init_def)

text \<open>
  C1: on the initial layout the carrier of player 0 stands on square 3 and the runners on
  the squares 2 and 4 are one free step away along the row, so the carrier rule of the
  specification gives \<open>{2, 4}\<close>; \<open>single_ball_actions\<close> returns the empty set.
\<close>

theorem single_ball_actions_initial:
  "single_ball_actions BoardState_init 0 = Some (Inr {}) \<and>
   carrier_moves_spec BoardState_init 0 = {2, 4}"
  by code_simp

section \<open>Validity of the board under engine updates\<close>

lemma getitem_index_ok: "getitem xs i = Inr v \<Longrightarrow> index_ok xs i"
  by (simp add: getitem_def index_ok_def split: if_splits)

lemma index_ok_getitem: "index_ok xs i \<Longrightarrow> getitem xs i = Inr (xs ! nat (norm_index xs i))"
  by (simp add: getitem_def index_ok_def)

lemma index_ok_length:
  assumes "length xs = length ys"
  shows "index_ok xs i = index_ok ys i"
  unfolding index_ok_def norm_index_def assms ..

lemma is_valid_iff:
  "is_valid g \<longleftrightarrow> (\<forall>pos \<in> set (state g). 0 \<le> pos \<and> pos \<le> 55) \<and> distinct (state g)"
proof -
  have "card (set (state g)) = length (state g) \<longleftrightarrow> distinct (state g)"
    by (rule iffI) (erule card_distinct, erule distinct_card)
  then show ?thesis
    by (simp add: is_valid_def list_all_iff)
qed

lemma piece_loop_free:
  assumes "d \<in> piece_loop g ms {}"
  shows "0 \<le> d \<and> d \<le> 55 \<and> d \<notin> set (state g)"
proof -
  from assms obtain m where "on_board m" "d = encode_single_pos m" "d \<notin> set (state g)"
    unfolding piece_loop_set by auto
  then show ?thesis using encode_range by blast
qed

lemma single_piece_actions_free:
  assumes "single_piece_actions g k = Inr A" and "d \<in> A"
  shows "0 \<le> d \<and> d \<le> 55 \<and> d \<notin> set (state g) \<and> index_ok (decode_state g) k"
proof -
  show ?thesis
  proof (cases "getitem (decode_state g) k")
    case (Inl e)
    with assms(1) show ?thesis
      by (simp add: single_piece_actions_def)
  next
    case (Inr cr)
    obtain col row where cr: "cr = (col, row)" by (cases cr)
    from Inr have ok: "index_ok (decode_state g) k"
      by (rule getitem_index_ok)
    from assms(1) Inr cr have "A = piece_loop g (possible_moves col row) {}"
      by (simp add: single_piece_actions_def)
    with assms(2) have "0 \<le> d \<and> d \<le> 55 \<and> d \<notin> set (state g)"
      by (simp add: piece_loop_free)
    with ok show ?thesis by simp
  qed
qed

lemma block_loop_free:
  assumes "block_loop g off js va = Inr A" and "(i, d) \<in> A"
  shows "(i, d) \<in> va \<or>
         (i \<in> set js \<and> 0 \<le> d \<and> d \<le> 55 \<and> d \<notin> set (state g) \<and> index_ok (decode_state g) (off + i))"
  using assms
proof (induction js arbitrary: va)
  case Nil
  then show ?case by simp
next
  case (Cons j js)
  from Cons.prems(1) obtain pa where pa: "single_piece_actions g (off + j) = Inr pa"
    and rest: "block_loop g off js (va \<union> Pair j ` pa) = Inr A"
    by (auto simp: Let_def split: sum.splits)
  from Cons.IH [OF rest Cons.prems(2)]
  consider "(i, d) \<in> va" | "i = j" "d \<in> pa"
    | "i \<in> set js \<and> 0 \<le> d \<and> d \<le> 55 \<and> d \<notin> set (state g) \<and> index_ok (decode_state g) (off + i)"
    by auto
  then show ?case
  proof cases
    case 2
    with single_piece_actions_free [OF pa] show ?thesis by simp
  qed simp_all
qed

lemma generate_valid_actions_free:
  assumes "generate_valid_actions g p = Some (Inr A)" and "(i, d) \<in> A"
  shows "0 \<le> d \<and> d \<le> 55 \<and> d \<notin> set (state g) \<and> index_ok (decode_state g) (p * 6 + i)"
proof -
  from assms(1) obtain va ba where va: "block_loop g (p * 6) [0, 1, 2, 3, 4] {} = Inr va"
    and ba: "single_ball_actions g p = Some (Inr ba)" and A: "A = va \<union> Pair 5 ` ba"
    by (auto simp: generate_valid_actions_def Let_def split: sum.splits option.splits)
  from ba single_ball_actions_cases [of g p] have "ba = {}" by auto
  with A assms(2) have "(i, d) \<in> va" by simp
  from block_loop_free [OF va this] show ?thesis by simp
qed

lemma setitem_Inr:
  "setitem xs i v = Inr ys \<longleftrightarrow> index_ok xs i \<and> xs[nat (norm_index xs i) := v] = ys"
proof (cases "index_ok xs i")
  case True
  then have "setitem xs i v = Inr (xs[nat (norm_index xs i) := v])"
    unfolding setitem_def index_ok_def by (rule if_P)
  with True show ?thesis by simp
next
  case False
  then have "setitem xs i v = Inl IndexError"
    unfolding setitem_def index_ok_def by (rule if_not_P)
  with False show ?thesis by simp
qed

lemma BoardState_update_Inr:
  assumes "BoardState_update g k d = Inr g'"
  shows "state g' = (state g)[nat (norm_index (state g) k) := d] \<and>
         length (decode_state g') = length (decode_state g)"
  using assms
  by (auto simp: BoardState_update_def setitem_Inr split: sum.splits)

lemma BoardState_update_valid:
  assumes "is_valid g" and "0 \<le> d" "d \<le> 55" and "d \<notin> set (state g)"
    and "BoardState_update g k d = Inr g'"
  shows "is_valid g'"
proof -
  let ?n = "nat (norm_index (state g) k)"
  from BoardState_update_Inr [OF assms(5)] have st: "state g' = (state g)[?n := d]" by simp
  have "set ((state g)[?n := d]) \<subseteq> insert d (set (state g))"
    by (rule set_update_subset_insert)
  moreover have "distinct ((state g)[?n := d])"
    using assms(1,4) by (intro distinct_list_update) (auto simp: is_valid_iff)
  ultimately show ?thesis
    using assms(1-3) unfolding is_valid_iff st by auto
qed

lemma BoardState_update_succeeds:
  assumes "length (state g) = length (decode_state g)" and "index_ok (decode_state g) k"
  shows "\<exists>g'. BoardState_update g k d = Inr g'"
proof -
  from assms have ok: "index_ok (state g) k"
    using index_ok_length by blast
  then have s1: "setitem (state g) k d = Inr ((state g)[nat (norm_index (state g) k) := d])"
    by (simp add: setitem_Inr)
  have "index_ok ((state g)[nat (norm_index (state g) k) := d]) k"
    using ok index_ok_length [of "(state g)[nat (norm_index (state g) k) := d]" "state g" k] by simp
  then obtain n where s2: "getitem ((state g)[nat (norm_index (state g) k) := d]) k = Inr n"
    using index_ok_getitem by blast
  from assms(2) obtain ds where s3: "setitem (decode_state g) k (decode_single_pos n) = Inr ds"
    by (simp add: setitem_Inr)
  show ?thesis
    by (simp add: BoardState_update_def s1 s2 s3)
qed

lemma single_piece_actions_total:
  assumes "index_ok (decode_state g) k"
  shows "\<exists>A. single_piece_actions g k = Inr A"
proof -
  from assms obtain cr where "getitem (decode_state g) k = Inr cr"
    using index_ok_getitem by blast
  then show ?thesis
    by (cases cr) (simp add: single_piece_actions_def)
qed

lemma block_loop_total:
  assumes "\<forall>j \<in> set js. index_ok (decode_state g) (off + j)"
  shows "\<exists>A. block_loop g off js va = Inr A"
  using assms
proof (induction js arbitrary: va)
  case Nil
  show ?case by simp
next
  case (Cons j js)
  then obtain pa where "single_piece_actions g (off + j) = Inr pa"
    using single_piece_actions_total [of g "off + j"] by auto
  with Cons show ?case by (simp add: Let_def)
qed

lemma generate_valid_actions_total:
  assumes "length (decode_state g) = 12" and "p = 0 \<or> p = 1"
  shows "\<exists>A. generate_valid_actions g p = Some (Inr A)"
proof -
  have "\<forall>j \<in> set [0, 1, 2, 3, 4]. index_ok (decode_state g) (p * 6 + j)"
    using assms by (auto simp: index_ok_def norm_index_def)
  then obtain va where "block_loop g (p * 6) [0, 1, 2, 3, 4] {} = Inr va"
    using block_loop_total by blast
  then show ?thesis
    using single_ball_actions_returns [OF assms(1), of p]
    by (simp add: generate_valid_actions_def)
qed


lemma GameSimulator_update_game_state:
  "GameSimulator_update sim (i, d) p =
     (case BoardState_update (game_state sim) (p * 6 + i) d of
        Inl e \<Rightarrow> Inl e | Inr g \<Rightarrow> Inr (sim\<lparr>game_state := g\<rparr>))"
  by (simp add: GameSimulator_update_def)

text \<open>
  C6: from a board of 12 positions that satisfies \<open>is_valid\<close>, a sequence of engine
  updates by the players 0 and 1 always comes to an end: either every action was in
  \<open>generate_valid_actions\<close> for its player and the board reached satisfies \<open>is_valid\<close>
  again (all positions in \<open>0..55\<close> and distinct), or an action outside the set was
  rejected with \<open>ValueError\<close>.
\<close>

theorem engine_updates_valid:
  assumes "is_valid (game_state sim)"
    and "length (state (game_state sim)) = 12" and "length (decode_state (game_state sim)) = 12"
    and "\<forall>m \<in> set ms. fst m = 0 \<or> fst m = 1"
  shows "(\<exists>sim'. engine_updates sim ms = Some (Inr sim') \<and> is_valid (game_state sim') \<and>
            length (state (game_state sim')) = 12 \<and> length (decode_state (game_state sim')) = 12) \<or>
         (\<exists>a p. engine_updates sim ms = Some (Inl (ValueError a p)))"
  using assms
proof (induction ms arbitrary: sim)
  case Nil
  then show ?case by simp
next
  case (Cons m ms)
  obtain p i d where m: "m = (p, (i, d))" by (cases m) auto
  let ?g = "game_state sim"
  from Cons.prems(4) m have p: "p = 0 \<or> p = 1" by simp
  from generate_valid_actions_total [OF Cons.prems(3) p]
  obtain A where A: "generate_valid_actions ?g p = Some (Inr A)" by blast
  show ?case
  proof (cases "(i, d) \<in> A")
    case False
    with A m show ?thesis by simp
  next
    case True
    from generate_valid_actions_free [OF A True]
    have d: "0 \<le> d" "d \<le> 55" "d \<notin> set (state ?g)" and ok: "index_ok (decode_state ?g) (p * 6 + i)"
      by simp_all
    from Cons.prems(2,3) have "length (state ?g) = length (decode_state ?g)" by simp
    from BoardState_update_succeeds [OF this ok]
    obtain g' where g': "BoardState_update ?g (p * 6 + i) d = Inr g'" by blast
    have v: "is_valid g'"
      using Cons.prems(1) d g' by (rule BoardState_update_valid)
    from BoardState_update_Inr [OF g'] Cons.prems(2,3)
    have len: "length (state g') = 12" "length (decode_state g') = 12" by simp_all
    have step: "engine_updates sim (m # ms) = engine_updates (sim\<lparr>game_state := g'\<rparr>) ms"
      using A True g' by (simp add: m GameSimulator_update_game_state)
    have "\<forall>m \<in> set ms. fst m = 0 \<or> fst m = 1"
      using Cons.prems(4) by simp
    with Cons.IH [of "sim\<lparr>game_state := g'\<rparr>"] v len show ?thesis
      unfolding step by simp
  qed
qed

lemma engine_updates_example:
  "map_option (map_sum id (\<lambda>sim'. state (game_state sim')))
     (engine_updates
        \<lparr>game_state = \<lparr>state = [1, 2, 3, 4, 5, 10, 50, 51, 52, 53, 54, 45],
                        decode_state = map decode_single_pos [1, 2, 3, 4, 5, 10, 50, 51, 52, 53, 54, 45]\<rparr>,
         current_round = - 1, players = ([] :: unit policy list)\<rparr>
        [(0, (0, 16)), (1, (0, 37))])
   = Some (Inr [16, 2, 3, 4, 5, 10, 37, 51, 52, 53, 54, 45])"
  by code_simp

theorem engine_updates_valid_witness:
  "is_valid \<lparr>state = [1, 2, 3, 4, 5, 10, 50, 51, 52, 53, 54, 45],
             decode_state = map decode_single_pos [1, 2, 3, 4, 5, 10, 50, 51, 52, 53, 54, 45]\<rparr> \<and>
   (\<exists>sim'. engine_updates
        \<lparr>game_state = \<lparr>state = [1, 2, 3, 4, 5, 10, 50, 51, 52, 53, 54, 45],
                        decode_state = map decode_single_pos [1, 2, 3, 4, 5, 10, 50, 51, 52, 53, 54, 45]\<rparr>,
         current_round = - 1, players = ([] :: unit policy list)\<rparr>
        [(0, (0, 16)), (1, (0, 37))] = Some (Inr sim') \<and>
      state (game_state sim') = [16, 2, 3, 4, 5, 10, 37, 51, 52, 53, 54, 45] \<and>
      is_valid (game_state sim'))"
proof -
  let ?g = "\<lparr>state = [1, 2, 3, 4, 5, 10, 50, 51, 52, 53, 54, 45],
             decode_state = map decode_single_pos [1, 2, 3, 4, 5, 10, 50, 51, 52, 53, 54, 45]\<rparr>"
  let ?sim = "\<lparr>game_state = ?g, current_round = - 1, players = ([] :: unit policy list)\<rparr>"
  let ?ms = "[(0, (0, 16)), (1, (0, 37))] :: (int \<times> int \<times> int) list"
  have v: "is_valid ?g"
    by (simp add: is_valid_iff)
  have "(\<exists>sim'. engine_updates ?sim ?ms = Some (Inr sim') \<and> is_valid (game_state sim') \<and>
            length (state (game_state sim')) = 12 \<and> length (decode_state (game_state sim')) = 12) \<or>
        (\<exists>a p. engine_updates ?sim ?ms = Some (Inl (ValueError a p)))"
    using v by (intro engine_updates_valid) simp_all
  then show ?thesis
  proof (elim disjE exE conjE)
    fix sim'
    assume e: "engine_updates ?sim ?ms = Some (Inr sim')" and "is_valid (game_state sim')"
    moreover from engine_updates_example e
    have "state (game_state sim') = [16, 2, 3, 4, 5, 10, 37, 51, 52, 53, 54, 45]"
      by simp
    ultimately show ?thesis using v by blast
  next
    fix a p
    assume "engine_updates ?sim ?ms = Some (Inl (ValueError a p))"
    with engine_updates_example show ?thesis by simp
  qed
qed

section \<open>The simulation loop\<close>

text \<open>The loop head, case by case.\<close>

lemma run_loop_error:
  "is_termination_state (game_state sim) = Inl e \<Longrightarrow> run_loop n sim pidx out = (Raised e, out)"
  by (subst run_loop.simps) simp

lemma run_loop_terminal:
  "is_termination_state (game_state sim) = Inr True \<Longrightarrow>
   run_loop n sim pidx out =
     (case pidx of
        None \<Rightarrow> (Raised UnboundLocalError, out)
      | Some p \<Rightarrow> (Returned (current_round sim, if p = 0 then ''WHITE'' else ''BLACK'', ''No issues''), out))"
  by (subst run_loop.simps) (simp split: option.splits)

lemma run_loop_0:
  "is_termination_state (game_state sim) = Inr False \<Longrightarrow> run_loop 0 sim pidx out = (Unfinished, out)"
  by (subst run_loop.simps) simp

lemma run_loop_Suc:
  "is_termination_state (game_state sim) = Inr False \<Longrightarrow>
   run_loop (Suc m) sim pidx out =
     (case run_body sim out of
        Stop res out' \<Rightarrow> (res, out')
      | Next sim' p out' \<Rightarrow> run_loop m sim' (Some p) out')"
  by (subst run_loop.simps) simp

text \<open>
  \<open>validate_action\<close> returns \<open>True\<close> or raises; it never returns \<open>False\<close>, so the
  branch of \<open>run\<close> for a rejected action is never taken.
\<close>

lemma validate_action_cases:
  "validate_action g a p = Some (Inr True) \<or> (\<exists>e. validate_action g a p = Some (Inl e))"
proof -
  have "generate_valid_actions g p \<noteq> None"
    using single_ball_actions_cases [of g p]
    by (auto simp: generate_valid_actions_def Let_def split: sum.splits)
  then show ?thesis
    by (auto simp: validate_action_def split: option.splits sum.splits)
qed

lemma GameSimulator_update_fields:
  assumes "GameSimulator_update sim a p = Inr sim'"
  shows "current_round sim' = current_round sim \<and> players sim' = players sim"
  using assms by (cases a) (auto simp: GameSimulator_update_def split: sum.splits)

lemma run_body_no_player:
  assumes "getitem (players sim) ((current_round sim + 1) mod 2) = Inl e"
  shows "run_body sim out = Stop (Raised e) out"
  using assms by (simp add: run_body_def)

lemma run_body_player:
  assumes "getitem (players sim) ((current_round sim + 1) mod 2) = Inr q"
  shows "run_body sim out =
     (case validate_action (game_state sim) (fst (q (make_state (game_state sim))))
             ((current_round sim + 1) mod 2) of
        None \<Rightarrow> Stop Unfinished (out @ [the_line sim q])
      | Some (Inl e) \<Rightarrow> Stop (Raised e) (out @ [the_line sim q])
      | Some (Inr ok) \<Rightarrow>
          (case GameSimulator_update (sim\<lparr>current_round := current_round sim + 1\<rparr>)
                  (fst (q (make_state (game_state sim)))) ((current_round sim + 1) mod 2) of
             Inl e \<Rightarrow> Stop (Raised e) (out @ [the_line sim q])
           | Inr sim' \<Rightarrow> Next sim' ((current_round sim + 1) mod 2) (out @ [the_line sim q])))"
proof -
  obtain a v where qa: "q (make_state (game_state sim)) = (a, v)"
    by (cases "q (make_state (game_state sim))")
  from validate_action_cases [of "game_state sim" a "(current_round sim + 1) mod 2"]
  show ?thesis
  proof (elim disjE exE)
    assume "validate_action (game_state sim) a ((current_round sim + 1) mod 2) = Some (Inr True)"
    then show ?thesis
      using assms qa by (simp add: run_body_def the_line_def Let_def split: sum.splits)
  next
    fix e
    assume "validate_action (game_state sim) a ((current_round sim + 1) mod 2) = Some (Inl e)"
    then show ?thesis
      using assms qa by (simp add: run_body_def the_line_def Let_def split: sum.splits)
  qed
qed

lemma the_line_fields:
  "line_round (the_line sim q) = current_round sim + 1"
  "line_player (the_line sim q) = (current_round sim + 1) mod 2"
  "line_state (the_line sim q) = state (game_state sim)"
  "line_reply (the_line sim q) = q (make_state (game_state sim))"
  by (simp_all add: the_line_def line_round_def line_player_def line_state_def line_reply_def)

lemma run_body_Stop:
  assumes "run_body sim out = Stop res out'"
  shows "(\<forall>t. res \<noteq> Returned t) \<and>
         (out' = out \<or>
          (\<exists>q. getitem (players sim) ((current_round sim + 1) mod 2) = Inr q \<and>
               out' = out @ [the_line sim q]))"
proof (cases "getitem (players sim) ((current_round sim + 1) mod 2)")
  case (Inl e)
  with assms show ?thesis by (auto simp: run_body_no_player)
next
  case (Inr q)
  with assms show ?thesis
    by (auto simp: run_body_player split: option.splits sum.splits)
qed

lemma run_body_Next:
  assumes "run_body sim out = Next sim' p out'"
  shows "p = (current_round sim + 1) mod 2 \<and> current_round sim' = current_round sim + 1 \<and>
         players sim' = players sim \<and>
         (\<exists>q. getitem (players sim) p = Inr q \<and> out' = out @ [the_line sim q])"
proof (cases "getitem (players sim) ((current_round sim + 1) mod 2)")
  case (Inl e)
  with assms show ?thesis by (simp add: run_body_no_player)
next
  case (Inr q)
  with assms show ?thesis
    by (auto simp: run_body_player dest!: GameSimulator_update_fields
          split: option.splits sum.splits)
qed


lemma lines_nil:
  assumes "\<forall>t. res = Returned t \<longrightarrow> (\<exists>p. pidx = Some p \<and> t = (cr, color_of p, ''No issues''))"
  shows "\<exists>new. out = out @ new \<and>
           (\<forall>k < length new. line_round (new ! k) = cr + 1 + int k \<and>
                              line_player (new ! k) = line_round (new ! k) mod 2) \<and>
           (\<forall>t. res = Returned t \<longrightarrow>
              (\<exists>p. (if new = [] then pidx = Some p else p = line_player (last new)) \<and>
                   t = (cr + int (length new), color_of p, ''No issues'')))"
  using assms by (intro exI [of _ "[]"]) simp

lemma run_loop_exit:
  assumes "run_loop n sim pidx out = (res, out')"
    and "is_termination_state (game_state sim) \<noteq> Inr False \<or> n = 0"
  shows "out' = out \<and>
         (\<forall>t. res = Returned t \<longrightarrow>
            (\<exists>p. pidx = Some p \<and> t = (current_round sim, color_of p, ''No issues'')))"
proof (cases "is_termination_state (game_state sim)")
  case (Inl e)
  with assms(1) show ?thesis by (auto simp: run_loop_error)
next
  case (Inr b)
  show ?thesis
  proof (cases b)
    case True
    with Inr assms(1) show ?thesis
      by (cases pidx) (auto simp: run_loop_terminal color_of_def)
  next
    case False
    with Inr assms show ?thesis by (auto simp: run_loop_0)
  qed
qed

lemma run_loop_lines:
  assumes "run_loop n sim pidx out = (res, out')"
  shows "\<exists>new. out' = out @ new \<and>
           (\<forall>k < length new. line_round (new ! k) = current_round sim + 1 + int k \<and>
                              line_player (new ! k) = line_round (new ! k) mod 2) \<and>
           (\<forall>t. res = Returned t \<longrightarrow>
              (\<exists>p. (if new = [] then pidx = Some p else p = line_player (last new)) \<and>
                   t = (current_round sim + int (length new), color_of p, ''No issues'')))"
  using assms
proof (induction n arbitrary: sim pidx out)
  case 0
  from run_loop_exit [OF 0] show ?case
    using lines_nil [of res pidx "current_round sim" out] by simp
next
  case (Suc m)
  show ?case
  proof (cases "is_termination_state (game_state sim) = Inr False")
    case False
    with run_loop_exit [OF Suc.prems] show ?thesis
      using lines_nil [of res pidx "current_round sim" out] by simp
  next
    case nt: True
      show ?thesis
      proof (cases "run_body sim out")
        case (Stop res1 out1)
        with Suc.prems nt have eq: "res = res1" "out' = out1"
          by (simp_all add: run_loop_Suc)
        from run_body_Stop [OF Stop] eq
        have nr: "\<forall>t. res \<noteq> Returned t"
          and o: "out' = out \<or> (\<exists>q. out' = out @ [the_line sim q])"
          by auto
        from o show ?thesis
        proof
          assume "out' = out"
          with nr show ?thesis
            using lines_nil [of res pidx "current_round sim" out] by simp
        next
          assume "\<exists>q. out' = out @ [the_line sim q]"
          then obtain q where "out' = out @ [the_line sim q]" ..
          with nr show ?thesis
            by (intro exI [of _ "[the_line sim q]"]) (simp add: the_line_fields)
        qed
      next
        case (Next sim1 p out1)
        with Suc.prems nt have rec: "run_loop m sim1 (Some p) out1 = (res, out')"
          by (simp add: run_loop_Suc)
        from run_body_Next [OF Next] obtain q where
          p: "p = (current_round sim + 1) mod 2" and cr: "current_round sim1 = current_round sim + 1"
          and out1: "out1 = out @ [the_line sim q]"
          by blast
        from Suc.IH [OF rec] obtain new where
          o: "out' = out1 @ new"
          and lines: "\<forall>k < length new. line_round (new ! k) = current_round sim1 + 1 + int k \<and>
                              line_player (new ! k) = line_round (new ! k) mod 2"
          and ret: "\<forall>t. res = Returned t \<longrightarrow>
              (\<exists>p'. (if new = [] then Some p = Some p' else p' = line_player (last new)) \<and>
                   t = (current_round sim1 + int (length new), color_of p', ''No issues''))"
          by blast
        let ?new = "the_line sim q # new"
        have 1: "out' = out @ ?new"
          using o out1 by simp
        have 2: "\<forall>k < length ?new. line_round (?new ! k) = current_round sim + 1 + int k \<and>
                              line_player (?new ! k) = line_round (?new ! k) mod 2"
        proof (intro allI impI)
          fix k assume k: "k < length ?new"
          show "line_round (?new ! k) = current_round sim + 1 + int k \<and>
                line_player (?new ! k) = line_round (?new ! k) mod 2"
          proof (cases k)
            case 0
            then show ?thesis by (simp add: the_line_fields)
          next
            case (Suc j)
            with k lines cr show ?thesis by simp
          qed
        qed
        have 3: "\<forall>t. res = Returned t \<longrightarrow>
              (\<exists>p'. (if ?new = [] then pidx = Some p' else p' = line_player (last ?new)) \<and>
                   t = (current_round sim + int (length ?new), color_of p', ''No issues''))"
          using ret cr p by (auto simp: the_line_fields)
        from 1 2 3 show ?thesis by blast
      qed
  qed
qed


lemma run_example:
  "run 5 (GameSimulator_init [\<lambda>snapshot. ((0, 16), ()), \<lambda>snapshot. ((0, 37), ())]) =
     (Raised (ValueError (0, 16) 0),
      [(0, 0, [1, 2, 3, 4, 5, 3, 50, 51, 52, 53, 54, 52], (0, 16), ()),
       (1, 1, [16, 2, 3, 4, 5, 3, 50, 51, 52, 53, 54, 52], (0, 37), ()),
       (2, 0, [16, 2, 3, 4, 5, 3, 37, 51, 52, 53, 54, 52], (0, 16), ())])"
  by code_simp





subsection \<open>Turn order\<close>



subsection \<open>Determinism\<close>

lemma getitem_same_length:
  assumes "length xs = length ys"
  shows "(getitem xs i = Inl IndexError \<and> getitem ys i = Inl IndexError) \<or>
         (\<exists>x y. getitem xs i = Inr x \<and> getitem ys i = Inr y)"
  using assms by (simp add: getitem_def norm_index_def)

lemma GameSimulator_update_players:
  "GameSimulator_update (sim\<lparr>players := ps, current_round := c\<rparr>) a p =
     (case GameSimulator_update (sim\<lparr>current_round := c\<rparr>) a p of
        Inl e \<Rightarrow> Inl e
      | Inr s \<Rightarrow> Inr (s\<lparr>players := ps\<rparr>))"
  by (cases a) (simp add: GameSimulator_update_def split: sum.splits)

lemma run_body_players:
  assumes "length ps = length (players sim)"
    and "\<And>q q'. getitem (players sim) ((current_round sim + 1) mod 2) = Inr q \<Longrightarrow>
                 getitem ps ((current_round sim + 1) mod 2) = Inr q' \<Longrightarrow>
                 q' (make_state (game_state sim)) = q (make_state (game_state sim))"
  shows "run_body (sim\<lparr>players := ps\<rparr>) out =
     (case run_body sim out of
        Stop res out' \<Rightarrow> Stop res out'
      | Next sim' p out' \<Rightarrow> Next (sim'\<lparr>players := ps\<rparr>) p out')"
proof -
  let ?p = "(current_round sim + 1) mod 2"
  from getitem_same_length [OF assms(1), of ?p]
  show ?thesis
  proof (elim disjE exE conjE)
    assume "getitem ps ?p = Inl IndexError" "getitem (players sim) ?p = Inl IndexError"
    then show ?thesis
      by (simp add: run_body_no_player)
  next
    fix q' q
    assume q': "getitem ps ?p = Inr q'" and q: "getitem (players sim) ?p = Inr q"
    from assms(2) [OF q q'] have eq: "q' (make_state (game_state sim)) = q (make_state (game_state sim))" .
    then have tl: "the_line (sim\<lparr>players := ps\<rparr>) q' = the_line sim q"
      by (simp add: the_line_def)
    show ?thesis
      using q q' eq tl
      by (simp add: run_body_player GameSimulator_update_players
            split: option.splits sum.splits)
  qed
qed


lemma run_body_out:
  assumes "getitem (players sim) ((current_round sim + 1) mod 2) = Inr q"
  shows "(\<exists>res. run_body sim out = Stop res (out @ [the_line sim q])) \<or>
         (\<exists>sim'. run_body sim out = Next sim' ((current_round sim + 1) mod 2) (out @ [the_line sim q]))"
  by (simp add: run_body_player [OF assms] split: option.splits sum.splits)

lemma run_loop_exit_players:
  assumes "is_termination_state (game_state sim) \<noteq> Inr False \<or> n = 0"
  shows "run_loop n (sim\<lparr>players := ps\<rparr>) pidx out = run_loop n sim pidx out"
proof (cases "is_termination_state (game_state sim)")
  case (Inl e)
  then show ?thesis by (simp add: run_loop_error)
next
  case (Inr b)
  show ?thesis
  proof (cases b)
    case True
    with Inr show ?thesis by (simp add: run_loop_terminal split: option.splits)
  next
    case False
    with Inr assms show ?thesis by (simp add: run_loop_0)
  qed
qed

lemma run_loop_players:
  assumes "run_loop n sim pidx out = (res, out')"
    and "length ps = length (players sim)"
    and "\<forall>l \<in> set (drop (length out) out'). replies ps l"
  shows "run_loop n (sim\<lparr>players := ps\<rparr>) pidx out = (res, out')"
  using assms
proof (induction n arbitrary: sim pidx out)
  case 0
  then show ?case by (simp add: run_loop_exit_players)
next
  case (Suc m)
  show ?case
  proof (cases "is_termination_state (game_state sim) = Inr False")
    case False
    with Suc.prems(1) show ?thesis by (simp add: run_loop_exit_players)
  next
    case nt: True
    let ?p = "(current_round sim + 1) mod 2"
    have agree: "q' (make_state (game_state sim)) = q (make_state (game_state sim))"
      if q: "getitem (players sim) ?p = Inr q" and q': "getitem ps ?p = Inr q'" for q q'
    proof -
      have "the_line sim q \<in> set (drop (length out) out')"
      proof -
        from run_body_out [OF q, of out] show ?thesis
        proof (elim disjE exE)
          fix res1
          assume "run_body sim out = Stop res1 (out @ [the_line sim q])"
          with Suc.prems(1) nt have "out' = out @ [the_line sim q]"
            by (simp add: run_loop_Suc)
          then show ?thesis by simp
        next
          fix sim1
          assume "run_body sim out = Next sim1 ?p (out @ [the_line sim q])"
          with Suc.prems(1) nt
          have "run_loop m sim1 (Some ?p) (out @ [the_line sim q]) = (res, out')"
            by (simp add: run_loop_Suc)
          from run_loop_lines [OF this] obtain new where "out' = (out @ [the_line sim q]) @ new"
            by blast
          then show ?thesis by simp
        qed
      qed
      with Suc.prems(3) have "replies ps (the_line sim q)" by blast
      with q' show ?thesis
        by (simp add: replies_def the_line_fields make_state_def)
    qed
    have body: "run_body (sim\<lparr>players := ps\<rparr>) out =
       (case run_body sim out of
          Stop res out' \<Rightarrow> Stop res out'
        | Next sim' p out' \<Rightarrow> Next (sim'\<lparr>players := ps\<rparr>) p out')"
      using Suc.prems(2) agree by (rule run_body_players)
    have nt': "is_termination_state (game_state (sim\<lparr>players := ps\<rparr>)) = Inr False"
      using nt by simp
    show ?thesis
    proof (cases "run_body sim out")
      case (Stop res1 out1)
      with Suc.prems(1) nt show ?thesis
        by (simp add: run_loop_Suc [OF nt'] run_loop_Suc [OF nt] body)
    next
      case (Next sim1 p out1)
      with Suc.prems(1) nt have rec: "run_loop m sim1 (Some p) out1 = (res, out')"
        by (simp add: run_loop_Suc)
      from run_body_Next [OF Next] obtain q where
        pl: "players sim1 = players sim" and out1: "out1 = out @ [the_line sim q]"
        by blast
      have "set (drop (length out1) out') \<subseteq> set (drop (length out) out')"
        unfolding out1 by (simp add: set_drop_subset_set_drop)
      with Suc.prems(3) have "\<forall>l \<in> set (drop (length out1) out'). replies ps l"
        by blast
      with Suc.IH [OF rec] Suc.prems(2) pl
      have "run_loop m (sim1\<lparr>players := ps\<rparr>) (Some p) out1 = (res, out')"
        by simp
      with Next show ?thesis
        by (simp add: run_loop_Suc [OF nt'] body)
    qed
  qed
qed

text \<open>
  C10: when a run of \<open>n\<close> rounds from \<open>simA\<close> has a given outcome and printed lines, and
  \<open>simB\<close> starts from the same board and round with as many policies, each of which
  replies to every line of that run as the line records (same action and value on the
  same board), then the run of \<open>simB\<close> has the same outcome, so the same round count
  and winner, and prints the same lines.
\<close>

theorem run_deterministic:
  assumes "run n simA = (res, out)"
    and "game_state simB = game_state simA" and "current_round simB = current_round simA"
    and "length (players simB) = length (players simA)"
    and "\<forall>l \<in> set out. replies (players simB) l"
  shows "run n simB = (res, out)"
proof -
  have "simB = simA\<lparr>players := players simB\<rparr>"
    using assms(2,3) by (cases simA, cases simB) simp
  moreover have "run_loop n (simA\<lparr>players := players simB\<rparr>) None [] = (res, out)"
    using assms(1,4,5) by (intro run_loop_players) (simp_all add: run_def)
  ultimately show ?thesis
    by (simp add: run_def)
qed

theorem run_deterministic_witness:
  "run 5 (GameSimulator_init [\<lambda>snapshot. ((0, 16), ()), \<lambda>snapshot. ((0, 37), ())]) =
     (Raised (ValueError (0, 16) 0),
      [(0, 0, [1, 2, 3, 4, 5, 3, 50, 51, 52, 53, 54, 52], (0, 16), ()),
       (1, 1, [16, 2, 3, 4, 5, 3, 50, 51, 52, 53, 54, 52], (0, 37), ()),
       (2, 0, [16, 2, 3, 4, 5, 3, 37, 51, 52, 53, 54, 52], (0, 16), ())]) \<and>
   run 5 (GameSimulator_init
       [\<lambda>snapshot. if hd snapshot = (1, 0) \<or> hd snapshot = (2, 2) then ((0, 16), ()) else ((4, 0), ()),
        \<lambda>snapshot. ((0, 37), ())]) =
     (Raised (ValueError (0, 16) 0),
      [(0, 0, [1, 2, 3, 4, 5, 3, 50, 51, 52, 53, 54, 52], (0, 16), ()),
       (1, 1, [16, 2, 3, 4, 5, 3, 50, 51, 52, 53, 54, 52], (0, 37), ()),
       (2, 0, [16, 2, 3, 4, 5, 3, 37, 51, 52, 53, 54, 52], (0, 16), ())])"
proof -
  let ?B = "GameSimulator_init
       [\<lambda>snapshot. if hd snapshot = (1, 0) \<or> hd snapshot = (2, 2) then ((0, 16), ()) else ((4, 0), ()),
        \<lambda>snapshot. ((0, 37), ())]"
  have "run 5 ?B =
     (Raised (ValueError (0, 16) 0),
      [(0, 0, [1, 2, 3, 4, 5, 3, 50, 51, 52, 53, 54, 52], (0, 16), ()),
       (1, 1, [16, 2, 3, 4, 5, 3, 50, 51, 52, 53, 54, 52], (0, 37), ()),
       (2, 0, [16, 2, 3, 4, 5, 3, 37, 51, 52, 53, 54, 52], (0, 16), ())])"
    by (rule run_deterministic [OF run_example])
       (simp_all add: GameSimulator_init_def replies_def getitem_def norm_index_def
          line_player_def line_state_def line_reply_def decode_single_pos_def N_COLS_def)
  with run_example show ?thesis by (rule conjI)
qed

subsection \<open>Invalid actions\<close>

text \<open>
  From any board that is not terminal, a round whose policy proposes an action outside
  the legal set ends the run with the \<open>ValueError\<close> of \<open>validate_action\<close>.
\<close>

lemma run_loop_invalid_action:
  assumes "is_termination_state (game_state sim) = Inr False"
    and "getitem (players sim) ((current_round sim + 1) mod 2) = Inr q"
    and "generate_valid_actions (game_state sim) ((current_round sim + 1) mod 2) = Some (Inr A)"
    and "fst (q (make_state (game_state sim))) \<notin> A"
  shows "run_loop (Suc n) sim pidx out =
           (Raised (ValueError (fst (q (make_state (game_state sim)))) ((current_round sim + 1) mod 2)),
            out @ [the_line sim q])"
proof -
  have "validate_action (game_state sim) (fst (q (make_state (game_state sim))))
          ((current_round sim + 1) mod 2) =
        Some (Inl (ValueError (fst (q (make_state (game_state sim)))) ((current_round sim + 1) mod 2)))"
    using assms(3,4) by (simp add: validate_action_def)
  then have "run_body sim out =
      Stop (Raised (ValueError (fst (q (make_state (game_state sim)))) ((current_round sim + 1) mod 2)))
        (out @ [the_line sim q])"
    unfolding run_body_player [OF assms(2)] by simp
  then show ?thesis
    by (simp add: run_loop_Suc [OF assms(1)])
qed

lemma run_loop_returns_no_forfeit:
  assumes "run_loop n sim pidx out = (Returned (r, w, reason), out')"
  shows "reason = ''No issues''"
  using run_loop_lines [OF assms] by auto

lemma init_not_terminal: "is_termination_state BoardState_init = Inr False"
  by code_simp

lemma init_valid_actions:
  "generate_valid_actions BoardState_init 0 =
     Some (Inr {(0, 10), (0, 14), (0, 16), (1, 7), (1, 11), (1, 15), (1, 17),
                (2, 8), (2, 12), (2, 16), (2, 18), (3, 9), (3, 13), (3, 17), (3, 19),
                (4, 10), (4, 18), (4, 20)})"
  by code_simp

text \<open>
  C2: on the fresh simulator, when the policy of player 0 proposes the carrier action
  \<open>(5, 50)\<close>, which is not a legal action, \<open>run\<close> prints the line of round 0 and ends by
  raising the \<open>ValueError\<close> of \<open>validate_action\<close>; it returns no triple.
\<close>

theorem run_invalid_action_raises:
  "run (Suc n) (GameSimulator_init ((\<lambda>snapshot. ((5, 50), v)) # ps)) =
     (Raised (ValueError (5, 50) 0),
      [(0, 0, [1, 2, 3, 4, 5, 3, 50, 51, 52, 53, 54, 52], (5, 50), v)])"
proof -
  let ?q = "\<lambda>snapshot :: (int \<times> int) list. ((5 :: int, 50 :: int), v)"
  let ?sim = "GameSimulator_init (?q # ps)"
  have g: "game_state ?sim = BoardState_init" and r: "(current_round ?sim + 1) mod 2 = 0"
    by (simp_all add: GameSimulator_init_def)
  have nt: "is_termination_state (game_state ?sim) = Inr False"
    by (simp add: g init_not_terminal)
  have q: "getitem (players ?sim) ((current_round ?sim + 1) mod 2) = Inr ?q"
    by (simp add: GameSimulator_init_def getitem_def norm_index_def)
  have A: "generate_valid_actions (game_state ?sim) ((current_round ?sim + 1) mod 2) =
     Some (Inr {(0, 10), (0, 14), (0, 16), (1, 7), (1, 11), (1, 15), (1, 17),
                (2, 8), (2, 12), (2, 16), (2, 18), (3, 9), (3, 13), (3, 17), (3, 19),
                (4, 10), (4, 18), (4, 20)})"
    unfolding g r by (rule init_valid_actions)
  have "run_loop (Suc n) ?sim None [] =
          (Raised (ValueError (fst (?q (make_state (game_state ?sim)))) ((current_round ?sim + 1) mod 2)),
           [] @ [the_line ?sim ?q])"
    using nt q A by (rule run_loop_invalid_action) simp
  then show ?thesis
    by (simp add: run_def the_line_def GameSimulator_init_def BoardState_init_def)
qed

end
